theory Spec2Isabelle
  imports Main "HOL-Library.Word"
begin

unbundle bit_operations_syntax

section \<open>Machine types and compile-time parameters\<close>

text \<open>
  The miner uses \<open>u32\<close> and \<open>u64\<close> throughout.  \<open>nonce_t\<close> and \<open>node_t\<close> are
  \<open>u32\<close> when \<open>SIZESHIFT \<le> 32\<close> and \<open>u64\<close> otherwise; the definitions below take
  them as \<open>'a word\<close>, so both widths are covered.

  Arrays are lists.  Reading or writing past the end of an array is undefined
  behaviour in the source; every theorem states the index range it relies on.
\<close>

type_synonym u32 = "32 word"
type_synonym u64 = "64 word"

text \<open>
  Modelled from the spec: \<open>cuckoo.h\<close>, which defines \<open>SIZE\<close>, \<open>HALFSIZE\<close> and
  \<open>NODEMASK\<close> from \<open>SIZESHIFT\<close>, is not among the sources.  The spec gives
  \<open>SIZE = 2^SIZESHIFT\<close>, \<open>HALFSIZE = SIZE/2\<close> and \<open>NODEMASK = SIZE/2 - 1\<close>.
\<close>

definition SIZE :: "nat \<Rightarrow> nat" where
  "SIZE sizeshift = 2 ^ sizeshift"

definition HALFSIZE :: "nat \<Rightarrow> nat" where
  "HALFSIZE sizeshift = SIZE sizeshift div 2"

definition NODEMASK :: "nat \<Rightarrow> nat" where
  "NODEMASK sizeshift = SIZE sizeshift div 2 - 1"

text \<open>\<open>#define PART_MASK ((1 << PART_BITS) - 1)\<close> and its neighbours.\<close>

definition PART_MASK :: "nat \<Rightarrow> nat" where
  "PART_MASK part_bits = 2 ^ part_bits - 1"

definition ONCE_BITS :: "nat \<Rightarrow> nat \<Rightarrow> nat" where
  "ONCE_BITS sizeshift part_bits = HALFSIZE sizeshift div 2 ^ part_bits"

definition TWICE_WORDS :: "nat \<Rightarrow> nat \<Rightarrow> nat" where
  "TWICE_WORDS sizeshift part_bits = (2 * ONCE_BITS sizeshift part_bits) div 32"

section \<open>\<open>twice_set\<close>: two bits per node\<close>

text \<open>\<open>twice_set::reset\<close>: \<open>memset(bits, 0, TWICE_WORDS*sizeof(au32))\<close>.\<close>

definition twice_reset :: "nat \<Rightarrow> u32 list" where
  "twice_reset twice_words = replicate twice_words 0"

text \<open>
  \<open>twice_set::set\<close> of the CPU miner without \<open>ATOMIC\<close>:
  \<^verbatim>\<open>node_t idx = u/16; u32 bit = 1 << (2 * (u%16));
u32 old = bits[idx]; bits[idx] = old | (bit + (old & bit));\<close>
\<close>

definition twice_set :: "u32 list \<Rightarrow> 'a::len word \<Rightarrow> u32 list" where
  "twice_set bits u =
     (let idx = unat u div 16;
          bt = push_bit (2 * (unat u mod 16)) (1 :: u32);
          old = bits ! idx
      in bits[idx := old OR (bt + (old AND bt))])"

text \<open>
  The same method under \<open>ATOMIC\<close>, run without interference: a fetch-or of the
  low bit, and a fetch-or of \<open>bit<<1\<close> when the old word had the low bit.
\<close>

definition twice_set_atomic :: "u32 list \<Rightarrow> 'a::len word \<Rightarrow> u32 list" where
  "twice_set_atomic bits u =
     (let idx = unat u div 16;
          bt = push_bit (2 * (unat u mod 16)) (1 :: u32);
          old = bits ! idx;
          bits1 = bits[idx := old OR bt]
      in if old AND bt \<noteq> 0 then bits1[idx := bits1 ! idx OR push_bit 1 bt] else bits1)"

text \<open>
  The CUDA miner's \<open>twice_set::set\<close>:
  \<^verbatim>\<open>u32 old = atomicOr(&bits[idx], bit); u32 bit2 = bit<<1;
if ((old & (bit2|bit)) == bit) atomicOr(&bits[idx], bit2);\<close>
\<close>

definition twice_set_cuda :: "u32 list \<Rightarrow> 'a::len word \<Rightarrow> u32 list" where
  "twice_set_cuda bits u =
     (let idx = unat u div 16;
          bt = push_bit (2 * (unat u mod 16)) (1 :: u32);
          old = bits ! idx;
          bits1 = bits[idx := old OR bt];
          bit2 = push_bit 1 bt
      in if old AND (bit2 OR bt) = bt then bits1[idx := bits1 ! idx OR bit2] else bits1)"

text \<open>\<open>twice_set::test\<close>: \<open>bits[u/16] >> (2 * (u%16)) & 2\<close>, nonzero meaning true.\<close>

definition twice_test :: "u32 list \<Rightarrow> 'a::len word \<Rightarrow> u32" where
  "twice_test bits u = drop_bit (2 * (unat u mod 16)) (bits ! (unat u div 16)) AND 2"

text \<open>The two-bit field of node \<open>u\<close>, read as a number: 0, 1 or 3 in a reachable state.\<close>

definition twice_field :: "u32 list \<Rightarrow> 'a::len word \<Rightarrow> u32" where
  "twice_field bits u = drop_bit (2 * (unat u mod 16)) (bits ! (unat u div 16)) AND 3"



section \<open>\<open>shrinkingset\<close>: the bitmap of alive nonces\<close>

text \<open>
  The CPU miner's class: \<open>std::vector<u64> bits\<close>, one bit per nonce (a set bit is a
  dead nonce), and \<open>std::vector<u64> cnt\<close>, one counter per thread.
\<close>

record shrinkingset =
  sbits :: "u64 list"
  cnt :: "u64 list"

text \<open>
  The constructor:
  \<^verbatim>\<open>nonce_t nwords = HALFSIZE/64; bits.resize(nwords); cnt.resize(nthreads);
cnt[0] = HALFSIZE;\<close>
  \<open>resize\<close> fills both vectors with zeros.
\<close>

definition shrinkingset_new :: "nat \<Rightarrow> nat \<Rightarrow> shrinkingset" where
  "shrinkingset_new sizeshift nthreads =
     \<lparr> sbits = replicate (HALFSIZE sizeshift div 64) 0,
       cnt = (replicate nthreads 0)[0 := of_nat (HALFSIZE sizeshift)] \<rparr>"

text \<open>\<open>count\<close>: \<open>u64 sum = 0; for (i < cnt.size()) sum += cnt[i]; return sum;\<close>\<close>

definition shrinkingset_count :: "shrinkingset \<Rightarrow> u64" where
  "shrinkingset_count s = foldl (\<lambda>sum c. sum + c) 0 (cnt s)"

text \<open>\<open>reset(n, thread)\<close>: \<open>bits[n/64] |= 1LL << (n%64); cnt[thread]--;\<close>\<close>

definition shrinkingset_reset :: "shrinkingset \<Rightarrow> 'a::len word \<Rightarrow> nat \<Rightarrow> shrinkingset" where
  "shrinkingset_reset s n thread =
     s \<lparr> sbits := (sbits s)[unat n div 64 := sbits s ! (unat n div 64) OR push_bit (unat n mod 64) 1],
         cnt := (cnt s)[thread := cnt s ! thread - 1] \<rparr>"

text \<open>\<open>test(n)\<close>: \<open>!((bits[n/64] >> (n%64)) & 1LL)\<close>\<close>

definition shrinkingset_test :: "shrinkingset \<Rightarrow> 'a::len word \<Rightarrow> bool" where
  "shrinkingset_test s n \<longleftrightarrow> drop_bit (unat n mod 64) (sbits s ! (unat n div 64)) AND 1 = 0"

text \<open>\<open>block(n)\<close>: \<open>~bits[n/64]\<close>\<close>

definition shrinkingset_block :: "shrinkingset \<Rightarrow> 'a::len word \<Rightarrow> u64" where
  "shrinkingset_block s n = NOT (sbits s ! (unat n div 64))"

text \<open>
  The number of alive nonces of a bitmap, counted bit by bit.  The CUDA host code counts
  the same way after trimming: \<open>cnt += __builtin_popcountll(~bits[i])\<close> over all words.
\<close>

definition alive_count :: "u64 list \<Rightarrow> nat" where
  "alive_count bs = length (filter (\<lambda>i. \<not> bit (bs ! (i div 64)) (i mod 64)) [0 ..< 64 * length bs])"

subsection \<open>The CUDA miner's \<open>shrinkingset\<close>\<close>

text \<open>
  There the class is a bare \<open>u32 *bits\<close>:
  \<^verbatim>\<open>reset(n): bits[n/32] |= 1 << (n%32);
test(n): !((bits[n/32] >> (n%32)) & 1);
block(n): ~bits[n/32];
wideblock(n): ~((u64*)bits)[n / 64];\<close>
  \<open>wideblock\<close> reads two neighbouring \<open>u32\<close> words as one \<open>u64\<close>; on the
  little-endian device the word with the even index is the low half.
\<close>

definition cuda_reset :: "u32 list \<Rightarrow> 'a::len word \<Rightarrow> u32 list" where
  "cuda_reset bits n = bits[unat n div 32 := bits ! (unat n div 32) OR push_bit (unat n mod 32) 1]"

definition cuda_test :: "u32 list \<Rightarrow> 'a::len word \<Rightarrow> bool" where
  "cuda_test bits n \<longleftrightarrow> drop_bit (unat n mod 32) (bits ! (unat n div 32)) AND 1 = 0"

definition cuda_block :: "u32 list \<Rightarrow> 'a::len word \<Rightarrow> u32" where
  "cuda_block bits n = NOT (bits ! (unat n div 32))"

definition cuda_wideblock :: "u32 list \<Rightarrow> 'a::len word \<Rightarrow> u64" where
  "cuda_wideblock bits n =
     NOT (word_cat (bits ! (2 * (unat n div 64) + 1)) (bits ! (2 * (unat n div 64))))"

section \<open>Sweeping the alive nonces of a word\<close>

text \<open>
  \<open>__builtin_ffsll\<close>, \<open>__ffs\<close> and \<open>__ffsll\<close>: one plus the index of the least
  significant set bit, and 0 for the word 0.
\<close>

definition ffs_word :: "'w::len word \<Rightarrow> nat" where
  "ffs_word w = (if w = 0 then 0 else Suc (length (takeWhile (\<lambda>i. \<not> bit w i) [0 ..< LENGTH('w)])))"

text \<open>
  All passes over the alive set share one loop, here for the CPU miner:
  \<^verbatim>\<open>u64 alive64 = alive->block(block);
for (nonce_t nonce = block-1; alive64; ) { // -1 compensates for 1-based ffs
  u32 ffs = __builtin_ffsll(alive64);
  nonce += ffs; alive64 >>= ffs;
  ... body(nonce) ...
  if (ffs & 64) break; // can't shift by 64
}\<close>
  The CUDA kernels run the same loop on \<open>u32\<close> or \<open>u64\<close> words with \<open>__ffs\<close> or
  \<open>__ffsll\<close> and without the final \<open>break\<close>.  \<open>sweep\<close> takes the break test \<open>brk\<close>
  and the loop body, which maps the nonce and the state to the new state.  A shift by the
  full width leaves 0 on the device; on the CPU the loop is left before the shifted value
  is read again.
\<close>

function sweep :: "(nat \<Rightarrow> bool) \<Rightarrow> ('a::len word \<Rightarrow> 's \<Rightarrow> 's) \<Rightarrow> 'w::len word \<Rightarrow> 'a word \<Rightarrow> 's \<Rightarrow> 's" where
  "sweep brk body alive nonce st =
     (if alive = 0 then st
      else let ffs = ffs_word alive;
               nonce' = nonce + of_nat ffs;
               alive' = drop_bit ffs alive;
               st' = body nonce' st
           in if brk ffs then st' else sweep brk body alive' nonce' st')"
  by pat_completeness auto
termination
proof (relation "measure (\<lambda>(brk, body, alive, nonce, st). unat alive)")
  show "wf (measure (\<lambda>(brk, body, alive, nonce, st). unat alive))" by simp
next
  fix brk :: "nat \<Rightarrow> bool" and body :: "'a::len word \<Rightarrow> 's \<Rightarrow> 's"
    and alive :: "'w::len word" and nonce :: "'a word" and st :: 's and ffs nonce' alive' st'
  assume nz: "alive \<noteq> 0" and ffs: "ffs = ffs_word alive" and alive': "alive' = drop_bit ffs alive"
  have "0 < ffs" using nz ffs by (simp add: ffs_word_def)
  then have "(2::nat) \<le> 2 ^ ffs"
    by (metis One_nat_def Suc_leI power_increasing power_one_right one_le_numeral)
  moreover have "0 < unat alive" using nz by (simp add: unat_gt_0)
  ultimately have "unat alive div 2 ^ ffs < unat alive"
    by (intro div_less_dividend) simp_all
  moreover have "unat alive' = unat alive div 2 ^ ffs"
    unfolding alive' unat_drop_bit_eq by (rule drop_bit_eq_div)
  ultimately show "((brk, body, alive', nonce', st'), (brk, body, alive, nonce, st))
       \<in> measure (\<lambda>(brk, body, alive, nonce, st). unat alive)"
    by simp
qed

text \<open>The break test of the CPU loops, \<open>ffs & 64\<close>, and the absent one of the kernels.\<close>

definition brk64 :: "nat \<Rightarrow> bool" where
  "brk64 ffs \<longleftrightarrow> ffs AND 64 \<noteq> 0"

definition no_brk :: "nat \<Rightarrow> bool" where
  "no_brk ffs \<longleftrightarrow> False"

text \<open>
  The outer loop of a CPU worker:
  \<^verbatim>\<open>for (nonce_t block = tp->id*64; block < HALFSIZE; block += ctx->nthreads*64)\<close>
  \<open>block\<close> is counted in \<open>nat\<close>; this is the machine arithmetic as long as
  \<open>block + nthreads*64\<close> does not wrap, which holds when
  \<open>HALFSIZE + 64 * nthreads\<close> fits \<open>nonce_t\<close>.  A worker only exists for
  \<open>nthreads > 0\<close>, so the step is positive.
\<close>

function for_blocks :: "(nat \<Rightarrow> 's \<Rightarrow> 's) \<Rightarrow> nat \<Rightarrow> nat \<Rightarrow> nat \<Rightarrow> 's \<Rightarrow> 's" where
  "for_blocks body halfsize step block st =
     (if block < halfsize \<and> 0 < step
      then for_blocks body halfsize step (block + step) (body block st)
      else st)"
  by pat_completeness auto
termination
  by (relation "measure (\<lambda>(body, halfsize, step, block, st). halfsize - block)") auto

section \<open>The edge function\<close>

text \<open>
  From here on \<open>nonce_t\<close> and \<open>node_t\<close> are \<open>u32\<close>, the types of the miners for
  \<open>SIZESHIFT \<le> 32\<close>.

  Modelled from the spec: \<open>_sipnode\<close> is declared in \<open>cuckoo.h\<close>, which is not among the
  sources.  The spec describes it as SipHash-2-4 of \<open>2 * nonce + side\<close> under the key of
  the header, masked to \<open>NODEMASK\<close>.  The keyed hash is the parameter \<open>siphash24\<close>.
\<close>

definition sipnode_raw :: "(u64 \<Rightarrow> u64) \<Rightarrow> nat \<Rightarrow> u64 \<Rightarrow> u32 \<Rightarrow> u64" where
  "sipnode_raw siphash24 sizeshift nonce uorv =
     siphash24 (2 * nonce + ucast uorv) AND of_nat (NODEMASK sizeshift)"

text \<open>
  The CUDA miner's \<open>dipnode\<close>:
  \<^verbatim>\<open>u64 nonce = 2*nce + uorv;
u64 v0 = ctx.v[0], v1 = ctx.v[1], v2 = ctx.v[2], v3 = ctx.v[3] ^ nonce;
SIPROUND; SIPROUND; v0 ^= nonce; v2 ^= 0xff;
SIPROUND; SIPROUND; SIPROUND; SIPROUND;
return (v0 ^ v1 ^ v2  ^ v3) & NODEMASK;\<close>
  \<open>2*nce + uorv\<close> is computed in \<open>nonce_t\<close>; the rounds between, whose macro is in
  \<open>cuckoo.h\<close>, are \<open>siphash24\<close>.
\<close>

definition dipnode :: "(u64 \<Rightarrow> u64) \<Rightarrow> nat \<Rightarrow> u32 \<Rightarrow> u32 \<Rightarrow> u32" where
  "dipnode siphash24 sizeshift nce uorv =
     ucast (siphash24 (ucast (2 * nce + uorv)) AND of_nat (NODEMASK sizeshift))"

section \<open>Edge trimming on the CPU\<close>

text \<open>
  \<^verbatim>\<open>#define NONCESHIFT (SIZESHIFT-1 - PART_BITS)
#define NODEPARTMASK (NODEMASK >> PART_BITS)\<close>
\<close>

definition NONCESHIFT :: "nat \<Rightarrow> nat \<Rightarrow> nat" where
  "NONCESHIFT sizeshift part_bits = sizeshift - 1 - part_bits"

definition NODEPARTMASK :: "nat \<Rightarrow> nat \<Rightarrow> nat" where
  "NODEPARTMASK sizeshift part_bits = NODEMASK sizeshift div 2 ^ part_bits"

text \<open>
  \<open>count_node_deg(tp, uorv, part)\<close> for the thread \<open>tid\<close> (\<open>tp->id\<close>).  For each of
  its blocks it collects in \<open>buffer\<close> the nodes \<open>u >> PART_BITS\<close> of the alive nonces
  whose node lies in the partition, then calls \<open>nonleaf->set\<close> on each.  (\<open>prefetch\<close>
  has no effect on the state.)  \<open>count_node_deg_block\<close> is the body of the block loop.
\<close>

definition count_node_deg_block ::
  "(u64 \<Rightarrow> u64) \<Rightarrow> nat \<Rightarrow> nat \<Rightarrow> u32 \<Rightarrow> nat \<Rightarrow> shrinkingset \<Rightarrow> nat \<Rightarrow> u32 list \<Rightarrow> u32 list" where
  "count_node_deg_block siphash24 sizeshift part_bits uorv part alive block nonleaf =
     (let alive64 = shrinkingset_block alive (of_nat block :: u32);
          buffer = sweep brk64
            (\<lambda>nonce buffer.
               let u = (ucast (sipnode_raw siphash24 sizeshift (ucast nonce) uorv) :: u32)
               in if unat (u AND of_nat (PART_MASK part_bits)) = part
                  then buffer @ [ucast (drop_bit part_bits u) :: u64]
                  else buffer)
            alive64 (of_nat block - 1 :: u32) []
      in foldl (\<lambda>nonleaf b. twice_set nonleaf (ucast b :: u32)) nonleaf buffer)"

definition count_node_deg ::
  "(u64 \<Rightarrow> u64) \<Rightarrow> nat \<Rightarrow> nat \<Rightarrow> nat \<Rightarrow> nat \<Rightarrow> u32 \<Rightarrow> nat \<Rightarrow> shrinkingset \<Rightarrow> u32 list \<Rightarrow> u32 list" where
  "count_node_deg siphash24 sizeshift part_bits nthreads tid uorv part alive nonleaf =
     for_blocks (count_node_deg_block siphash24 sizeshift part_bits uorv part alive)
       (HALFSIZE sizeshift) (nthreads * 64) (tid * 64) nonleaf"

text \<open>
  \<open>kill_leaf_edges(tp, uorv, part)\<close> for the thread \<open>tid\<close>.  The buffer holds
  \<open>((u64)nonce << NONCESHIFT) | (u >> PART_BITS)\<close>; the second loop unpacks each entry:
  \<^verbatim>\<open>u64 bi = buffer[i];
if (!nonleaf->test(bi & NODEPARTMASK)) {
  nonce_t n = block | (bi >> NONCESHIFT);
  alive->reset(n, tp->id);
}\<close>
  \<open>kill_leaf_edges_block\<close> is the body of the block loop.
\<close>

definition kill_leaf_edges_block ::
  "(u64 \<Rightarrow> u64) \<Rightarrow> nat \<Rightarrow> nat \<Rightarrow> nat \<Rightarrow> u32 \<Rightarrow> nat \<Rightarrow> u32 list \<Rightarrow> nat \<Rightarrow> shrinkingset \<Rightarrow> shrinkingset" where
  "kill_leaf_edges_block siphash24 sizeshift part_bits tid uorv part nonleaf block alive =
     (let alive64 = shrinkingset_block alive (of_nat block :: u32);
          buffer = sweep brk64
            (\<lambda>nonce buffer.
               let u = (ucast (sipnode_raw siphash24 sizeshift (ucast nonce) uorv) :: u32)
               in if unat (u AND of_nat (PART_MASK part_bits)) = part
                  then buffer @ [push_bit (NONCESHIFT sizeshift part_bits) (ucast nonce :: u64)
                                   OR ucast (drop_bit part_bits u)]
                  else buffer)
            alive64 (of_nat block - 1 :: u32) []
      in foldl
           (\<lambda>alive bi.
              if twice_test nonleaf (ucast (bi AND of_nat (NODEPARTMASK sizeshift part_bits)) :: u32) = 0
              then shrinkingset_reset alive
                     (ucast (ucast (of_nat block :: u32) OR drop_bit (NONCESHIFT sizeshift part_bits) bi) :: u32)
                     tid
              else alive)
           alive buffer)"

definition kill_leaf_edges ::
  "(u64 \<Rightarrow> u64) \<Rightarrow> nat \<Rightarrow> nat \<Rightarrow> nat \<Rightarrow> nat \<Rightarrow> u32 \<Rightarrow> nat \<Rightarrow> u32 list \<Rightarrow> shrinkingset \<Rightarrow> shrinkingset" where
  "kill_leaf_edges siphash24 sizeshift part_bits nthreads tid uorv part nonleaf alive =
     for_blocks (kill_leaf_edges_block siphash24 sizeshift part_bits tid uorv part nonleaf)
       (HALFSIZE sizeshift) (nthreads * 64) (tid * 64) alive"

text \<open>
  The trimming loop of \<open>worker\<close>.  Between two barriers every thread runs the same
  phase; the model runs the threads one after the other, thread 0 first.  Within the kill
  phase the threads write disjoint words of the bitmap and their own counters.
  \<^verbatim>\<open>for (u32 round=1; round <= ctx->ntrims; round++)
  for (u32 uorv = 0; uorv < 2; uorv++)
    for (u32 part = 0; part <= PART_MASK; part++) {
      if (tp->id == 0) ctx->nonleaf->reset();
      barrier(&ctx->barry);
      count_node_deg(tp,uorv,part);
      barrier(&ctx->barry);
      kill_leaf_edges(tp,uorv,part);
      barrier(&ctx->barry);
    }\<close>
\<close>

definition count_phase ::
  "(u64 \<Rightarrow> u64) \<Rightarrow> nat \<Rightarrow> nat \<Rightarrow> nat \<Rightarrow> u32 \<Rightarrow> nat \<Rightarrow> shrinkingset \<Rightarrow> u32 list \<Rightarrow> u32 list" where
  "count_phase siphash24 sizeshift part_bits nthreads uorv part alive nonleaf =
     foldl (\<lambda>nonleaf tid. count_node_deg siphash24 sizeshift part_bits nthreads tid uorv part alive nonleaf)
       nonleaf [0 ..< nthreads]"

definition kill_phase ::
  "(u64 \<Rightarrow> u64) \<Rightarrow> nat \<Rightarrow> nat \<Rightarrow> nat \<Rightarrow> u32 \<Rightarrow> nat \<Rightarrow> u32 list \<Rightarrow> shrinkingset \<Rightarrow> shrinkingset" where
  "kill_phase siphash24 sizeshift part_bits nthreads uorv part nonleaf alive =
     foldl (\<lambda>alive tid. kill_leaf_edges siphash24 sizeshift part_bits nthreads tid uorv part nonleaf alive)
       alive [0 ..< nthreads]"

definition trim_pass ::
  "(u64 \<Rightarrow> u64) \<Rightarrow> nat \<Rightarrow> nat \<Rightarrow> nat \<Rightarrow> u32 \<Rightarrow> nat \<Rightarrow> shrinkingset \<Rightarrow> shrinkingset" where
  "trim_pass siphash24 sizeshift part_bits nthreads uorv part alive =
     (let nonleaf = twice_reset (TWICE_WORDS sizeshift part_bits);
          nonleaf = count_phase siphash24 sizeshift part_bits nthreads uorv part alive nonleaf
      in kill_phase siphash24 sizeshift part_bits nthreads uorv part nonleaf alive)"

definition trim_round :: "(u64 \<Rightarrow> u64) \<Rightarrow> nat \<Rightarrow> nat \<Rightarrow> nat \<Rightarrow> shrinkingset \<Rightarrow> shrinkingset" where
  "trim_round siphash24 sizeshift part_bits nthreads alive =
     foldl (\<lambda>alive (uorv, part). trim_pass siphash24 sizeshift part_bits nthreads uorv part alive)
       alive
       (concat (map (\<lambda>uorv. map (\<lambda>part. (uorv, part)) [0 ..< Suc (PART_MASK part_bits)]) [0, 1]))"

primrec trim :: "(u64 \<Rightarrow> u64) \<Rightarrow> nat \<Rightarrow> nat \<Rightarrow> nat \<Rightarrow> nat \<Rightarrow> shrinkingset \<Rightarrow> shrinkingset" where
  "trim siphash24 sizeshift part_bits nthreads 0 alive = alive"
| "trim siphash24 sizeshift part_bits nthreads (Suc ntrims) alive =
     trim_round siphash24 sizeshift part_bits nthreads
       (trim siphash24 sizeshift part_bits nthreads ntrims alive)"

section \<open>Edge trimming on the device\<close>

text \<open>
  The kernels run one thread per 32-bit word: \<open>nonce_t block = tid * 32\<close>.
  \<^verbatim>\<open>u32 alive32 = alive.block(block);
for (nonce_t nonce = block-1; alive32; ) {
  u32 ffs = __ffs(alive32);
  nonce += ffs; alive32 >>= ffs;
  node_t u = dipnode(sip_ctx, nonce, uorv);
  if ((u & PART_MASK) == part) { nonleaf.set(u >> PART_BITS); }
}\<close>
  and in \<open>kill_leaf_edges\<close> the body
  \<^verbatim>\<open>if ((u & PART_MASK) == part) { if (!nonleaf.test(u >> PART_BITS)) { alive.reset(nonce); } }\<close>
\<close>

definition cuda_count_node_deg ::
  "(u64 \<Rightarrow> u64) \<Rightarrow> nat \<Rightarrow> nat \<Rightarrow> nat \<Rightarrow> u32 \<Rightarrow> nat \<Rightarrow> u32 list \<Rightarrow> u32 list \<Rightarrow> u32 list" where
  "cuda_count_node_deg siphash24 sizeshift part_bits tid uorv part bits nonleaf =
     (let block = (of_nat (tid * 32) :: u32);
          alive32 = cuda_block bits block
      in sweep no_brk
           (\<lambda>nonce nonleaf.
              let u = dipnode siphash24 sizeshift nonce uorv
              in if unat (u AND of_nat (PART_MASK part_bits)) = part
                 then twice_set_cuda nonleaf (drop_bit part_bits u)
                 else nonleaf)
           alive32 (block - 1) nonleaf)"

definition cuda_kill_leaf_edges ::
  "(u64 \<Rightarrow> u64) \<Rightarrow> nat \<Rightarrow> nat \<Rightarrow> nat \<Rightarrow> u32 \<Rightarrow> nat \<Rightarrow> u32 list \<Rightarrow> u32 list \<Rightarrow> u32 list" where
  "cuda_kill_leaf_edges siphash24 sizeshift part_bits tid uorv part nonleaf bits =
     (let block = (of_nat (tid * 32) :: u32);
          alive32 = cuda_block bits block
      in sweep no_brk
           (\<lambda>nonce bits.
              let u = dipnode siphash24 sizeshift nonce uorv
              in if unat (u AND of_nat (PART_MASK part_bits)) = part
                 then (if twice_test nonleaf (drop_bit part_bits u) = 0
                       then cuda_reset bits nonce else bits)
                 else bits)
           alive32 (block - 1) bits)"

text \<open>
  The host launches each kernel on \<open>(HALFSIZE / 32) / tpb\<close> blocks of \<open>tpb\<close> threads and
  clears \<open>nonleaf\<close> before each pair:
  \<^verbatim>\<open>for (u32 round=0; round < ntrims; round++)
  for (u32 uorv = 0; uorv < 2; uorv++)
    for (u32 part = 0; part <= PART_MASK; part++) {
      checkCudaErrors(cudaMemset(ctx.nonleaf.bits, 0, nodeBytes));
      count_node_deg <<<(HALFSIZE / 32) / tpb, tpb >>>(device_ctx, uorv, part);
      kill_leaf_edges <<<(HALFSIZE / 32) / tpb, tpb >>>(device_ctx, uorv, part);
    }\<close>
  The threads of a launch are run one after the other.
\<close>

definition cuda_threads :: "nat \<Rightarrow> nat \<Rightarrow> nat list" where
  "cuda_threads sizeshift tpb = [0 ..< (HALFSIZE sizeshift div 32) div tpb * tpb]"

definition cuda_kill_phase ::
  "(u64 \<Rightarrow> u64) \<Rightarrow> nat \<Rightarrow> nat \<Rightarrow> nat \<Rightarrow> u32 \<Rightarrow> nat \<Rightarrow> u32 list \<Rightarrow> u32 list \<Rightarrow> u32 list" where
  "cuda_kill_phase siphash24 sizeshift part_bits tpb uorv part nonleaf bits =
     foldl (\<lambda>bits tid. cuda_kill_leaf_edges siphash24 sizeshift part_bits tid uorv part nonleaf bits)
       bits (cuda_threads sizeshift tpb)"

definition cuda_trim_pass ::
  "(u64 \<Rightarrow> u64) \<Rightarrow> nat \<Rightarrow> nat \<Rightarrow> nat \<Rightarrow> u32 \<Rightarrow> nat \<Rightarrow> u32 list \<Rightarrow> u32 list" where
  "cuda_trim_pass siphash24 sizeshift part_bits tpb uorv part bits =
     (let nonleaf = twice_reset (TWICE_WORDS sizeshift part_bits);
          nonleaf = foldl (\<lambda>nonleaf tid.
                       cuda_count_node_deg siphash24 sizeshift part_bits tid uorv part bits nonleaf)
                     nonleaf (cuda_threads sizeshift tpb)
      in cuda_kill_phase siphash24 sizeshift part_bits tpb uorv part nonleaf bits)"

definition cuda_trim_round :: "(u64 \<Rightarrow> u64) \<Rightarrow> nat \<Rightarrow> nat \<Rightarrow> nat \<Rightarrow> u32 list \<Rightarrow> u32 list" where
  "cuda_trim_round siphash24 sizeshift part_bits tpb bits =
     foldl (\<lambda>bits (uorv, part). cuda_trim_pass siphash24 sizeshift part_bits tpb uorv part bits)
       bits
       (concat (map (\<lambda>uorv. map (\<lambda>part. (uorv, part)) [0 ..< Suc (PART_MASK part_bits)]) [0, 1]))"

primrec cuda_trim :: "(u64 \<Rightarrow> u64) \<Rightarrow> nat \<Rightarrow> nat \<Rightarrow> nat \<Rightarrow> nat \<Rightarrow> u32 list \<Rightarrow> u32 list" where
  "cuda_trim siphash24 sizeshift part_bits tpb 0 bits = bits"
| "cuda_trim siphash24 sizeshift part_bits tpb (Suc ntrims) bits =
     cuda_trim_round siphash24 sizeshift part_bits tpb
       (cuda_trim siphash24 sizeshift part_bits tpb ntrims bits)"

section \<open>Auxiliary notions for the proofs\<close>

text \<open>A bitmap \<open>bs'\<close> has every bit set that \<open>bs\<close> has: no dead nonce has come back.\<close>

definition dead_stays_dead :: "'w::len word list \<Rightarrow> 'w word list \<Rightarrow> bool" where
  "dead_stays_dead bs bs' \<longleftrightarrow>
     length bs' = length bs \<and> (\<forall>i<length bs. \<forall>k. bit (bs ! i) k \<longrightarrow> bit (bs' ! i) k)"

section \<open>The load check after trimming\<close>










section \<open>The cuckoo hash table\<close>

text \<open>
  How a call can end other than by returning: an array is indexed past its end, an
  \<open>assert\<close> fails, or a loop never ends.
\<close>

datatype fault = Out_of_bounds | Assert_failed | Never_returns















section \<open>Recovering the nonces of a cycle\<close>

text \<open>
  \<open>solution(ctx, us, nu, vs, nv)\<close> of the CPU miner first collects the edges of the
  cycle in a \<open>std::set<edge>\<close>:
  \<^verbatim>\<open>cycle.insert(edge(*us, *vs));
while (nu--)
  cycle.insert(edge(us[(nu+1)&~1], us[nu|1])); // u's in even position; v's in odd
while (nv--)
  cycle.insert(edge(vs[nv|1], vs[(nv+1)&~1])); // u's in odd position; v's in even\<close>
  Inside the loops \<open>nu\<close> and \<open>nv\<close> run from their value minus one down to 0.
\<close>

type_synonym edge = "u32 \<times> u32"

definition cycle_edges :: "u32 list \<Rightarrow> u32 \<Rightarrow> u32 list \<Rightarrow> u32 \<Rightarrow> edge set" where
  "cycle_edges us nu vs nv =
     (let cycle = {(us ! 0, vs ! 0)};
          cycle = foldl (\<lambda>cycle i. insert (us ! unat ((of_nat i + 1 :: u32) AND NOT 1),
                                            us ! unat ((of_nat i :: u32) OR 1)) cycle)
                    cycle (rev [0 ..< unat nu])
      in foldl (\<lambda>cycle i. insert (vs ! unat ((of_nat i :: u32) OR 1),
                                     vs ! unat ((of_nat i + 1 :: u32) AND NOT 1)) cycle)
           cycle (rev [0 ..< unat nv]))"

text \<open>
  Then it sweeps all alive nonces, in the order of the blocks and inside a block from
  the least nonce up:
  \<^verbatim>\<open>u32 soli = ctx->nsols++;
for (nonce_t block = 0; block < HALFSIZE; block += 64) {
  u64 alive64 = ctx->alive->block(block);
  for (nonce_t nonce = block-1; alive64; ) { // -1 compensates for 1-based ffs
    u32 ffs = __builtin_ffsll(alive64);
    nonce += ffs; alive64 >>= ffs;
    edge e(sipnode(&ctx->sip_ctx, nonce, 0), sipnode(&ctx->sip_ctx, nonce, 1));
    if (cycle.find(e) != cycle.end()) {
      ctx->sols[soli][n++] = nonce;
      if (PROOFSIZE > 2)
        cycle.erase(e);
    }
    if (ffs & 64) break; // can't shift by 64
  }
}
assert(n==PROOFSIZE);\<close>
  \<open>sipnode\<close> is declared in \<open>cuckoo.h\<close> and is a parameter here.  The state of the
  sweep is the set \<open>cycle\<close> and the list of the nonces stored in the row
  \<open>ctx->sols[soli]\<close> so far, whose length is \<open>n\<close>; a store past the \<open>PROOFSIZE\<close>
  entries of the row is followed by the failing assertion.  \<open>solution\<close> returns the row.
\<close>

definition solution_body :: "(u32 \<Rightarrow> u32 \<Rightarrow> u32) \<Rightarrow> nat \<Rightarrow> u32 \<Rightarrow> edge set \<times> u32 list \<Rightarrow> edge set \<times> u32 list" where
  "solution_body sipnode proofsize nonce st =
     (let e = (sipnode nonce 0, sipnode nonce 1)
      in if e \<in> fst st
         then (if 2 < proofsize then fst st - {e} else fst st, snd st @ [nonce])
         else st)"

definition solution_block ::
  "(u32 \<Rightarrow> u32 \<Rightarrow> u32) \<Rightarrow> nat \<Rightarrow> shrinkingset \<Rightarrow> nat \<Rightarrow> edge set \<times> u32 list \<Rightarrow> edge set \<times> u32 list" where
  "solution_block sipnode proofsize alive block st =
     (let alive64 = shrinkingset_block alive (of_nat block :: u32)
      in sweep brk64 (solution_body sipnode proofsize) alive64 (of_nat block - 1 :: u32) st)"

definition solution ::
  "(u32 \<Rightarrow> u32 \<Rightarrow> u32) \<Rightarrow> nat \<Rightarrow> nat \<Rightarrow> shrinkingset \<Rightarrow> u32 list \<Rightarrow> u32 \<Rightarrow> u32 list \<Rightarrow> u32 \<Rightarrow> fault + u32 list" where
  "solution sipnode sizeshift proofsize alive us nu vs nv =
     (let cycle = cycle_edges us nu vs nv;
          row = snd (for_blocks (solution_block sipnode proofsize alive) (HALFSIZE sizeshift) 64 0 (cycle, []))
      in if length row = proofsize then Inr row else Inl Assert_failed)"

text \<open>
  What holds during the sweep, up to the nonce \<open>B\<close>: the set has only lost edges, and
  the row is strictly ascending and holds alive nonces below \<open>B\<close> and below \<open>H\<close> whose
  edges were in the set \<open>C\<close> the sweep started with.
\<close>

definition sweep_inv ::
  "(u32 \<Rightarrow> u32 \<Rightarrow> u32) \<Rightarrow> shrinkingset \<Rightarrow> edge set \<Rightarrow> nat \<Rightarrow> nat \<Rightarrow> edge set \<times> u32 list \<Rightarrow> bool" where
  "sweep_inv sipnode alive C H B st \<longleftrightarrow>
     fst st \<subseteq> C \<and> sorted_wrt (<) (map unat (snd st))
     \<and> (\<forall>x \<in> set (snd st). unat x < B \<and> unat x < H \<and> shrinkingset_test alive x
           \<and> (sipnode x 0, sipnode x 1) \<in> C)"

text \<open>
  The CUDA miner stores the edges of a cycle in a row of \<open>noncedge_t\<close>, without the
  nonces:
  \<^verbatim>\<open>typedef uint2 edge_t;
#define make_edge make_uint2
struct noncedge_t {
  nonce_t nonce;
  edge_t edge;
};\<close>
  The kernel \<open>find_nonces\<close> then looks for the nonces.  Each thread sweeps one 64-bit
  word of the alive set and writes the nonce into every entry that holds its edge:
  \<^verbatim>\<open>int id = blockIdx.x * blockDim.x + threadIdx.x;
nonce_t block = id * 64;
u64 alive64 = alive.wideblock(block);
for (nonce_t nonce = block - 1; alive64;) { // -1 compensates for 1-based ffs
  u64 ffs = __ffsll(alive64);
  nonce += ffs; alive64 >>= ffs;
  edge_t edge = make_edge(dipnode(sip_ctx, nonce, 0) << 1, dipnode(sip_ctx, nonce, 1) << 1 | 1);
  for (u32 i = 0; i < ctx->nsols; i++) {
    noncedge_t *sol = ctx->sols[i];
    for (u32 j = 0; j < PROOFSIZE; j++) {
      if (sol[j].edge == edge)
        sol[j].nonce = nonce;
    }
  }
}\<close>
  \<open>sols\<close> is the list of the \<open>nsols\<close> rows in use, each a list of \<open>PROOFSIZE\<close> entries.
  The nonce of the sweep is \<open>nce\<close> here, \<open>nonce\<close> being the field of the record.
\<close>

type_synonym edge_t = "u32 \<times> u32"

record noncedge =
  nonce :: u32
  edge :: edge_t

definition cuda_edge :: "(u64 \<Rightarrow> u64) \<Rightarrow> nat \<Rightarrow> u32 \<Rightarrow> edge_t" where
  "cuda_edge siphash24 sizeshift nce =
     (push_bit 1 (dipnode siphash24 sizeshift nce 0),
      push_bit 1 (dipnode siphash24 sizeshift nce 1) OR 1)"

definition find_nonces_body ::
  "(u64 \<Rightarrow> u64) \<Rightarrow> nat \<Rightarrow> u32 \<Rightarrow> noncedge list list \<Rightarrow> noncedge list list" where
  "find_nonces_body siphash24 sizeshift nce sols =
     (let e = cuda_edge siphash24 sizeshift nce
      in map (map (\<lambda>sol. if edge sol = e then sol\<lparr>nonce := nce\<rparr> else sol)) sols)"

definition find_nonces ::
  "(u64 \<Rightarrow> u64) \<Rightarrow> nat \<Rightarrow> u32 list \<Rightarrow> nat \<Rightarrow> noncedge list list \<Rightarrow> noncedge list list" where
  "find_nonces siphash24 sizeshift bits tid sols =
     (let block = (of_nat (tid * 64) :: u32);
          alive64 = cuda_wideblock bits block
      in sweep no_brk (find_nonces_body siphash24 sizeshift) alive64 (block - 1) sols)"

text \<open>
  The host launches the kernel on \<open>(HALFSIZE / 64) / tpb\<close> blocks of \<open>tpb\<close> threads, sorts
  each row and prints its nonces:
  \<^verbatim>\<open>find_nonces <<<(HALFSIZE / 64) / tpb, tpb >>>(device_ctx);
cudaMemcpy(&ctx, device_ctx, sizeof(cuckoo_ctx), cudaMemcpyDeviceToHost);
for (u32 i = 0; i < ctx.nsols; i++) {
  printf("Solution");
  qsort(ctx.sols[i], PROOFSIZE, sizeof(noncedge_t), noncedge_cmp);
  for (u32 j = 0; j < PROOFSIZE; j++)
    printf(" %x", (uintmax_t)ctx.sols[i][j].nonce);
  printf("\n");
}\<close>
  with
  \<^verbatim>\<open>int noncedge_cmp(const void *a, const void *b) {
  return ((noncedge_t *)a)->nonce - ((noncedge_t *)b)->nonce;
}\<close>
  The threads of the launch are run one after the other.  The difference in
  \<open>noncedge_cmp\<close> is taken in \<open>nonce_t\<close> and returned as an \<open>int\<close>.  \<open>qsort\<close> belongs to
  the C library; \<open>qsorted\<close> says of an array \<open>out\<close> that it holds the entries of the row
  in an order in which no entry compares greater than a later one.
\<close>

definition nonce_threads :: "nat \<Rightarrow> nat \<Rightarrow> nat list" where
  "nonce_threads sizeshift tpb = [0 ..< (HALFSIZE sizeshift div 64) div tpb * tpb]"

definition find_nonces_launch ::
  "(u64 \<Rightarrow> u64) \<Rightarrow> nat \<Rightarrow> nat \<Rightarrow> u32 list \<Rightarrow> noncedge list list \<Rightarrow> noncedge list list" where
  "find_nonces_launch siphash24 sizeshift tpb bits sols =
     foldl (\<lambda>sols tid. find_nonces siphash24 sizeshift bits tid sols) sols (nonce_threads sizeshift tpb)"

definition noncedge_cmp :: "noncedge \<Rightarrow> noncedge \<Rightarrow> int" where
  "noncedge_cmp a b = sint (nonce a - nonce b)"

definition qsorted :: "('a \<Rightarrow> 'a \<Rightarrow> int) \<Rightarrow> 'a list \<Rightarrow> 'a list \<Rightarrow> bool" where
  "qsorted cmp row out \<longleftrightarrow>
     length out = length row \<and> set out = set row \<and> sorted_wrt (\<lambda>a b. cmp a b \<le> 0) out"

text \<open>
  What an entry of a row looks like after the nonces \<open>xs\<close> were swept in this order, and
  the nonces a launch with \<open>T\<close> threads sweeps.
\<close>

definition entry_after :: "(u64 \<Rightarrow> u64) \<Rightarrow> nat \<Rightarrow> u32 list \<Rightarrow> noncedge \<Rightarrow> noncedge" where
  "entry_after siphash24 sizeshift xs sol =
     foldl (\<lambda>sol nce. if edge sol = cuda_edge siphash24 sizeshift nce then sol\<lparr>nonce := nce\<rparr> else sol)
       sol xs"

definition swept_word :: "u32 list \<Rightarrow> nat \<Rightarrow> u32 list" where
  "swept_word bits tid =
     map (\<lambda>i. of_nat (tid * 64) + of_nat i)
       (filter (bit (cuda_wideblock bits (of_nat (tid * 64) :: u32))) [0 ..< 64])"

definition swept :: "u32 list \<Rightarrow> nat \<Rightarrow> u32 list" where
  "swept bits T = concat (map (swept_word bits) [0 ..< T])"
section \<open>Properties of \<open>twice_set\<close>\<close>

lemma and_exp_u32: "(old :: u32) AND 2 ^ p = (if bit old p then 2 ^ p else 0)"
  by (rule bit_word_eqI) (auto simp add: bit_simps)

lemma twice_word_update_bit:
  "bit ((old :: u32) OR (2 ^ p + (old AND 2 ^ p))) k \<longleftrightarrow>
     bit old k \<or> (k < 32 \<and> (if bit old p then k = Suc p else k = p))"
  by (auto simp add: and_exp_u32 bit_simps simp flip: power_Suc)

text \<open>The three variants of \<open>set\<close> compute the same word.\<close>

lemma twice_word_atomic:
  "(if (old :: u32) AND 2 ^ p \<noteq> 0 then (old OR 2 ^ p) OR 2 ^ p * 2 else old OR 2 ^ p)
     = old OR (2 ^ p + (old AND 2 ^ p))"
proof (cases "bit old p")
  case True
  then have "old AND 2 ^ p = 2 ^ p" by (simp add: and_exp_u32)
  moreover from True have "p < 32" by (auto dest: bit_imp_le_length)
  then have "(2::u32) ^ p \<noteq> 0" by simp
  moreover have "old OR 2 ^ p = old" using True
    by (auto intro!: bit_word_eqI simp add: bit_simps)
  ultimately show ?thesis by (simp add: mult.commute)
next
  case False
  then show ?thesis by (simp add: and_exp_u32)
qed

lemma twice_word_cuda_cond:
  "((old :: u32) AND (2 ^ p * 2 OR 2 ^ p) = 2 ^ p) \<longleftrightarrow>
     32 \<le> p \<or> (bit old p \<and> \<not> bit old (Suc p))"
proof (cases "p < 32")
  case False
  then have z: "(2::u32) ^ p = 0" by simp
  show ?thesis unfolding z using False by simp
next
  case True
  have b: "bit (old AND (2 ^ p * 2 OR 2 ^ p)) n \<longleftrightarrow> bit old n \<and> n < 32 \<and> (n = Suc p \<or> n = p)" for n
    by (auto simp add: bit_simps simp flip: power_Suc2)
  have e: "bit ((2::u32) ^ p) n \<longleftrightarrow> n = p" for n
    using True by (auto simp add: bit_simps)
  show ?thesis
  proof
    assume eq: "old AND (2 ^ p * 2 OR 2 ^ p) = 2 ^ p"
    have "bit old p" using b[of p] e[of p] True unfolding eq by simp
    moreover have "\<not> bit old (Suc p)"
    proof
      assume s: "bit old (Suc p)"
      then have "Suc p < 32" by (auto dest: bit_imp_le_length)
      with s b[of "Suc p"] e[of "Suc p"] show False unfolding eq by simp
    qed
    ultimately show "32 \<le> p \<or> (bit old p \<and> \<not> bit old (Suc p))" by simp
  next
    assume "32 \<le> p \<or> (bit old p \<and> \<not> bit old (Suc p))"
    with True have h: "bit old p" "\<not> bit old (Suc p)" by auto
    show "old AND (2 ^ p * 2 OR 2 ^ p) = 2 ^ p"
      by (rule bit_word_eqI) (use h True in \<open>auto simp add: b e\<close>)
  qed
qed

lemma twice_word_cuda:
  "(if (old :: u32) AND (2 ^ p * 2 OR 2 ^ p) = 2 ^ p then (old OR 2 ^ p) OR 2 ^ p * 2
    else old OR 2 ^ p) = old OR (2 ^ p + (old AND 2 ^ p))" (is "?l = ?r")
proof (rule bit_word_eqI)
  fix k assume "k < LENGTH(32)"
  show "bit ?l k = bit ?r k"
    unfolding twice_word_update_bit twice_word_cuda_cond
    by (auto simp add: bit_simps simp flip: power_Suc2 dest: bit_imp_le_length)
qed

lemma twice_set_atomic_eq:
  "unat u div 16 < length bits \<Longrightarrow> twice_set_atomic bits u = twice_set bits u"
  unfolding twice_set_atomic_def twice_set_def Let_def
  by (simp add: twice_word_atomic [symmetric])

lemma twice_set_cuda_eq:
  "unat u div 16 < length bits \<Longrightarrow> twice_set_cuda bits u = twice_set bits u"
  unfolding twice_set_cuda_def twice_set_def Let_def
  by (simp add: twice_word_cuda [symmetric])

lemma twice_set_nth:
  "unat u div 16 < length bits \<Longrightarrow>
   bit (twice_set bits u ! i) k \<longleftrightarrow>
     bit (bits ! i) k \<or> (i = unat u div 16 \<and> k < 32 \<and>
        (if bit (bits ! i) (2 * (unat u mod 16)) then k = Suc (2 * (unat u mod 16))
         else k = 2 * (unat u mod 16)))"
  by (simp add: twice_set_def Let_def nth_list_update twice_word_update_bit)

lemma length_twice_set [simp]: "length (twice_set bits u) = length bits"
  by (simp add: twice_set_def Let_def)

lemma twice_pos_inj:
  "unat (x :: 'a::len word) div 16 = unat u div 16 \<Longrightarrow> unat x mod 16 = unat u mod 16 \<Longrightarrow> x = u"
  by (metis div_mult_mod_eq word_unat_eq_iff)

lemma twice_set_low:
  assumes "unat x div 16 < length bits"
  shows "bit (twice_set bits x ! (unat u div 16)) (2 * (unat u mod 16)) \<longleftrightarrow>
         bit (bits ! (unat u div 16)) (2 * (unat u mod 16)) \<or> x = u"
proof (cases "x = u")
  case True
  have "2 * (unat u mod 16) < 32" by simp
  with True show ?thesis
    unfolding twice_set_nth [OF assms] by simp
next
  case False
  have "2 * (unat u mod 16) \<noteq> Suc (2 * (unat x mod 16))" by (rule double_not_eq_Suc_double)
  moreover have "\<not> (unat u div 16 = unat x div 16 \<and> unat u mod 16 = unat x mod 16)"
    using False twice_pos_inj [of x u] by auto
  ultimately show ?thesis
    unfolding twice_set_nth [OF assms] using False by auto
qed

lemma twice_set_high:
  assumes "unat x div 16 < length bits"
  shows "bit (twice_set bits x ! (unat u div 16)) (Suc (2 * (unat u mod 16))) \<longleftrightarrow>
         bit (bits ! (unat u div 16)) (Suc (2 * (unat u mod 16)))
         \<or> (x = u \<and> bit (bits ! (unat u div 16)) (2 * (unat u mod 16)))"
proof (cases "x = u")
  case True
  have "unat u mod 16 < 16" by simp
  then have "Suc (2 * (unat u mod 16)) < 32" by linarith
  with True show ?thesis
    unfolding twice_set_nth [OF assms] by auto
next
  case False
  have "Suc (2 * (unat u mod 16)) \<noteq> 2 * (unat x mod 16)" by (rule Suc_double_not_eq_double)
  moreover have "\<not> (unat u div 16 = unat x div 16 \<and> unat u mod 16 = unat x mod 16)"
    using False twice_pos_inj [of x u] by auto
  ultimately show ?thesis
    unfolding twice_set_nth [OF assms] using False by auto
qed

lemma twice_test_iff:
  "twice_test bits u \<noteq> 0 \<longleftrightarrow> bit (bits ! (unat u div 16)) (Suc (2 * (unat u mod 16)))"
proof -
  have "(w :: u32) AND 2 \<noteq> 0 \<longleftrightarrow> bit w 1" for w
    using and_exp_u32 [of w 1] by simp
  then show ?thesis
    by (simp add: twice_test_def bit_simps)
qed

lemma twice_field_eq:
  "twice_field bits u =
     (if bit (bits ! (unat u div 16)) (Suc (2 * (unat u mod 16))) then 2 else 0) +
     (if bit (bits ! (unat u div 16)) (2 * (unat u mod 16)) then 1 else 0)"
proof -
  have "(w :: u32) AND 3 = (if bit w 1 then 2 else 0) + (if bit w 0 then 1 else 0)" for w
  proof -
    have "w AND 3 = take_bit 2 w" by (simp add: take_bit_eq_mask mask_eq_exp_minus_1)
    also have "\<dots> = (if bit w 1 then 2 else 0) + (if bit w 0 then 1 else 0)"
      by (simp add: numeral_2_eq_2 take_bit_Suc bit_Suc bit_0 mod_2_eq_odd)
    finally show ?thesis .
  qed
  then show ?thesis
    by (simp add: twice_field_def bit_simps)
qed

text \<open>After any in-range sequence of \<open>set\<close> calls: the low bit of \<open>u\<close> records one
  call or more, the high bit two calls or more.\<close>

lemma twice_foldl_bits:
  fixes u :: "'a::len word"
  assumes "\<forall>x\<in>set us. unat x div 16 < length bits"
  shows "length (foldl twice_set bits us) = length bits
     \<and> (bit (foldl twice_set bits us ! (unat u div 16)) (2 * (unat u mod 16)) \<longleftrightarrow>
          bit (bits ! (unat u div 16)) (2 * (unat u mod 16)) \<or> 1 \<le> count_list us u)
     \<and> (bit (foldl twice_set bits us ! (unat u div 16)) (Suc (2 * (unat u mod 16))) \<longleftrightarrow>
          bit (bits ! (unat u div 16)) (Suc (2 * (unat u mod 16)))
          \<or> (bit (bits ! (unat u div 16)) (2 * (unat u mod 16)) \<and> 1 \<le> count_list us u)
          \<or> 2 \<le> count_list us u)"
  using assms
proof (induction us arbitrary: bits)
  case Nil
  then show ?case by simp
next
  case (Cons x us)
  have x: "unat x div 16 < length bits" using Cons.prems by simp
  have "\<forall>y\<in>set us. unat y div 16 < length (twice_set bits x)"
    using Cons.prems by simp
  from Cons.IH [OF this] show ?case
    by (auto simp add: twice_set_low [OF x] twice_set_high [OF x])
qed

lemma twice_variant_foldl:
  assumes "sv \<in> {twice_set, twice_set_atomic, twice_set_cuda}"
    and "\<forall>x\<in>set us. unat x div 16 < length bits"
  shows "foldl sv bits us = foldl twice_set bits us"
  using assms(2)
proof (induction us arbitrary: bits)
  case Nil
  then show ?case by simp
next
  case (Cons x us)
  have x: "unat x div 16 < length bits" using Cons.prems by simp
  have sv: "sv bits x = twice_set bits x"
    using assms(1) twice_set_atomic_eq [OF x] twice_set_cuda_eq [OF x] by auto
  have "\<forall>y\<in>set us. unat y div 16 < length (twice_set bits x)"
    using Cons.prems by simp
  from Cons.IH [OF this] show ?case by (simp add: sv)
qed

text \<open>
  C4.  Starting from \<open>reset\<close>, after any sequence \<open>us\<close> of \<open>set\<close> calls on nodes of the
  partition, \<open>test(u)\<close> is true exactly when \<open>u\<close> was set two times or more (so it is
  false after no call and after one call).  One \<open>set(u)\<close> moves the field of \<open>u\<close> from
  00 to 01, from 01 to 11 and from 11 to 11; a \<open>set\<close> of another node leaves it alone,
  and no \<open>set\<close> lowers a field.  This holds for the plain, the \<open>ATOMIC\<close> and the
  CUDA variant of \<open>set\<close>.
\<close>

theorem twice_set_saturating_counter:
  fixes u x :: "'a::len word"
  assumes sv: "sv \<in> {twice_set, twice_set_atomic, twice_set_cuda}"
    and u: "unat u div 16 < twice_words"
    and us: "\<forall>y\<in>set us. unat y div 16 < twice_words"
    and bits: "length bits = twice_words"
    and x: "unat x div 16 < twice_words"
  shows "((twice_test (foldl sv (twice_reset twice_words) us) u \<noteq> 0) = (2 \<le> count_list us u))
     \<and> (twice_field bits u = 0 \<longrightarrow> twice_field (sv bits u) u = 1)
     \<and> (twice_field bits u = 1 \<longrightarrow> twice_field (sv bits u) u = 3)
     \<and> (twice_field bits u = 3 \<longrightarrow> twice_field (sv bits u) u = 3)
     \<and> (x \<noteq> u \<longrightarrow> twice_field (sv bits x) u = twice_field bits u)
     \<and> twice_field bits u \<le> twice_field (sv bits x) u"
proof -
  have us': "\<forall>y\<in>set us. unat y div 16 < length (twice_reset twice_words)"
    using us by (simp add: twice_reset_def)
  have zero: "\<not> bit (twice_reset twice_words ! (unat u div 16)) k" for k
    using u by (simp add: twice_reset_def)
  have "(twice_test (foldl sv (twice_reset twice_words) us) u \<noteq> 0) = (2 \<le> count_list us u)"
    unfolding twice_variant_foldl [OF sv us'] twice_test_iff
    using twice_foldl_bits [OF us', of u] by (simp add: zero)
  moreover have svu: "sv bits u = twice_set bits u"
    using sv u bits twice_set_atomic_eq [of u bits] twice_set_cuda_eq [of u bits] by auto
  have svx: "sv bits x = twice_set bits x"
    using sv x bits twice_set_atomic_eq [of x bits] twice_set_cuda_eq [of x bits] by auto
  have ub: "unat u div 16 < length bits" and xb: "unat x div 16 < length bits"
    using u x bits by simp_all
  have "twice_field bits u = 0 \<longrightarrow> twice_field (sv bits u) u = 1"
    unfolding svu twice_field_eq twice_set_low [OF ub] twice_set_high [OF ub]
    by (auto split: if_splits)
  moreover have "twice_field bits u = 1 \<longrightarrow> twice_field (sv bits u) u = 3"
    unfolding svu twice_field_eq twice_set_low [OF ub] twice_set_high [OF ub]
    by (auto split: if_splits)
  moreover have "twice_field bits u = 3 \<longrightarrow> twice_field (sv bits u) u = 3"
    unfolding svu twice_field_eq twice_set_low [OF ub] twice_set_high [OF ub]
    by (auto split: if_splits)
  moreover have "x \<noteq> u \<longrightarrow> twice_field (sv bits x) u = twice_field bits u"
    unfolding svx twice_field_eq twice_set_low [OF xb] twice_set_high [OF xb]
    by simp
  moreover have "twice_field bits u \<le> twice_field (sv bits x) u"
    unfolding svx twice_field_eq twice_set_low [OF xb] twice_set_high [OF xb]
    by (auto split: if_splits)
  ultimately show ?thesis by blast
qed

theorem twice_set_saturating_counter_witness:
  "twice_test (foldl twice_set_cuda (twice_reset 2) [3, 21, 3 :: u32]) (3 :: u32) \<noteq> 0
   \<and> twice_field (twice_set_cuda [0, 0] (3 :: u32)) (3 :: u32) = 1
   \<and> twice_field (twice_set_cuda [0, 0] (21 :: u32)) (3 :: u32) = 0"
  using twice_set_saturating_counter [of twice_set_cuda "3 :: u32" 2 "[3, 21, 3]" "[0, 0]" 21]
  by (simp add: twice_field_def)


section \<open>Properties of \<open>shrinkingset\<close>\<close>


lemma shrinkingset_test_iff:
  "shrinkingset_test s n \<longleftrightarrow> \<not> bit (sbits s ! (unat n div 64)) (unat n mod 64)"
proof -
  have "(w :: u64) AND 1 = 0 \<longleftrightarrow> \<not> bit w 0" for w
    by (simp add: and_one_eq bit_0 mod_2_eq_odd)
  then show ?thesis by (simp add: shrinkingset_test_def bit_simps)
qed

lemma cuda_test_iff:
  "cuda_test bits n \<longleftrightarrow> \<not> bit (bits ! (unat n div 32)) (unat n mod 32)"
proof -
  have "(w :: u32) AND 1 = 0 \<longleftrightarrow> \<not> bit w 0" for w
    by (simp add: and_one_eq bit_0 mod_2_eq_odd)
  then show ?thesis by (simp add: cuda_test_def bit_simps)
qed

lemma foldl_add_sum_list: "foldl (\<lambda>sum c. sum + c) a xs = a + sum_list (xs :: u64 list)"
  by (induction xs arbitrary: a) (simp_all add: add.assoc)

lemma shrinkingset_count_sum: "shrinkingset_count s = sum_list (cnt s)"
  by (simp add: shrinkingset_count_def foldl_add_sum_list)

lemma sum_list_update_word:
  "t < length xs \<Longrightarrow> sum_list (xs[t := v]) = sum_list xs - xs ! t + (v :: u64)"
  by (induction xs arbitrary: t) (auto simp add: nth_Cons' split: nat.splits)

lemma HALFSIZE_eq: "0 < sizeshift \<Longrightarrow> HALFSIZE sizeshift = 2 ^ (sizeshift - 1)"
  by (cases sizeshift) (simp_all add: HALFSIZE_def SIZE_def)

lemma HALFSIZE_64: 
  assumes "7 \<le> sizeshift"
  shows "HALFSIZE sizeshift = 64 * 2 ^ (sizeshift - 7)"
proof -
  obtain k where k: "sizeshift = k + 7"
    using assms by (metis le_add_diff_inverse2)
  show ?thesis unfolding k by (simp add: HALFSIZE_def SIZE_def power_add)
qed

lemma HALFSIZE_div_64: "7 \<le> sizeshift \<Longrightarrow> HALFSIZE sizeshift div 64 = 2 ^ (sizeshift - 7)"
  by (simp add: HALFSIZE_64)

text \<open>
  C10.  Right after construction with a positive thread count, every nonce below
  \<open>HALFSIZE\<close> is alive and \<open>count()\<close> is \<open>HALFSIZE\<close>.  The bitmap has
  \<open>HALFSIZE/64\<close> words, so \<open>HALFSIZE\<close> must be a multiple of 64
  (\<open>SIZESHIFT \<ge> 7\<close>), and \<open>HALFSIZE\<close> must fit the \<open>u64\<close> counter.
\<close>

theorem shrinkingset_new_all_alive:
  fixes n :: "'a::len word"
  assumes "0 < nthreads" and "7 \<le> sizeshift" and "sizeshift \<le> 64"
    and "unat n < HALFSIZE sizeshift"
  shows "shrinkingset_test (shrinkingset_new sizeshift nthreads) n
       \<and> unat (shrinkingset_count (shrinkingset_new sizeshift nthreads)) = HALFSIZE sizeshift"
proof -
  have "unat n div 64 < HALFSIZE sizeshift div 64"
    using assms(4) unfolding HALFSIZE_64 [OF assms(2)] HALFSIZE_div_64 [OF assms(2)]
    by (intro less_mult_imp_div_less) (simp add: mult.commute)
  then have "shrinkingset_test (shrinkingset_new sizeshift nthreads) n"
    by (simp add: shrinkingset_test_iff shrinkingset_new_def)
  moreover have "sum_list ((replicate nthreads (0::u64))[0 := v]) = v" for v
    using assms(1) by (simp add: sum_list_update_word sum_list_replicate)
  then have "shrinkingset_count (shrinkingset_new sizeshift nthreads) = of_nat (HALFSIZE sizeshift)"
    by (simp add: shrinkingset_count_sum shrinkingset_new_def)
  moreover have "(2::nat) ^ (sizeshift - 1) < 2 ^ LENGTH(64)"
    by (rule power_strict_increasing) (use assms(2,3) in simp_all)
  then have "HALFSIZE sizeshift < 2 ^ LENGTH(64)"
    using assms(2) by (simp only: HALFSIZE_eq)
  then have "unat (of_nat (HALFSIZE sizeshift) :: u64) = HALFSIZE sizeshift"
    by (rule of_nat_inverse [OF refl])
  ultimately show ?thesis by simp
qed

theorem shrinkingset_new_all_alive_witness:
  "shrinkingset_test (shrinkingset_new 7 2) (63 :: u32)
       \<and> unat (shrinkingset_count (shrinkingset_new 7 2)) = HALFSIZE 7"
  using shrinkingset_new_all_alive [of 2 7 "63 :: u32"] by (simp add: HALFSIZE_def SIZE_def)


lemma bit_or_push_bit_one:
  "bit ((w :: 'a::len word) OR 2 ^ p) k \<longleftrightarrow> bit w k \<or> (k = p \<and> p < LENGTH('a))"
  by (auto simp add: bit_simps)

lemma pos_64_inj: "i div 64 = j div 64 \<Longrightarrow> i mod 64 = j mod 64 \<Longrightarrow> i = (j::nat)"
  by (metis div_mult_mod_eq)

lemma sbits_reset_bit:
  assumes "unat n div 64 < length (sbits s)"
  shows "bit (sbits (shrinkingset_reset s n t) ! (i div 64)) (i mod 64) \<longleftrightarrow>
         bit (sbits s ! (i div 64)) (i mod 64) \<or> i = unat n"
proof (cases "i = unat n")
  case True
  with assms show ?thesis
    by (simp add: shrinkingset_reset_def bit_or_push_bit_one)
next
  case False
  then have "\<not> (i div 64 = unat n div 64 \<and> i mod 64 = unat n mod 64)"
    using pos_64_inj by blast
  with False assms show ?thesis
    by (auto simp add: shrinkingset_reset_def bit_or_push_bit_one nth_list_update)
qed


lemma length_sbits_reset [simp]:
  "length (sbits (shrinkingset_reset s n t)) = length (sbits s)"
  by (simp add: shrinkingset_reset_def)

lemma length_cnt_reset [simp]:
  "length (cnt (shrinkingset_reset s n t)) = length (cnt s)"
  by (simp add: shrinkingset_reset_def)

lemma sbits_reset_idem:
  assumes "unat n div 64 < length (sbits s)"
  shows "sbits (shrinkingset_reset (shrinkingset_reset s n t) n t') = sbits (shrinkingset_reset s n t)"
  using assms by (simp add: shrinkingset_reset_def or.assoc)

lemma shrinkingset_count_reset:
  assumes "t < length (cnt s)"
  shows "shrinkingset_count (shrinkingset_reset s n t) = shrinkingset_count s - 1"
  using assms by (simp add: shrinkingset_count_sum shrinkingset_reset_def sum_list_update_word)

lemma alive_count_card:
  "alive_count bs = card {i. i < 64 * length bs \<and> \<not> bit (bs ! (i div 64)) (i mod 64)}"
proof -
  have "alive_count bs = card ({i. \<not> bit (bs ! (i div 64)) (i mod 64)} \<inter> set [0 ..< 64 * length bs])"
    unfolding alive_count_def by (rule distinct_length_filter) simp
  also have "{i. \<not> bit (bs ! (i div 64)) (i mod 64)} \<inter> set [0 ..< 64 * length bs]
      = {i. i < 64 * length bs \<and> \<not> bit (bs ! (i div 64)) (i mod 64)}"
    by auto
  finally show ?thesis .
qed

lemma alive_count_reset:
  assumes n: "unat n div 64 < length (sbits s)" and a: "shrinkingset_test s n"
  shows "alive_count (sbits s) = Suc (alive_count (sbits (shrinkingset_reset s n t)))"
proof -
  let ?A = "{i. i < 64 * length (sbits s) \<and> \<not> bit (sbits s ! (i div 64)) (i mod 64)}"
  have fin: "finite ?A" by simp
  have lt: "unat n < 64 * length (sbits s)"
    using n by (metis div_less_iff_less_mult mult.commute zero_less_numeral)
  have mem: "unat n \<in> ?A"
    using a lt by (simp add: shrinkingset_test_iff)
  have "{i. i < 64 * length (sbits (shrinkingset_reset s n t)) \<and>
            \<not> bit (sbits (shrinkingset_reset s n t) ! (i div 64)) (i mod 64)} = ?A - {unat n}"
    unfolding sbits_reset_bit [OF n] by auto
  then have "alive_count (sbits (shrinkingset_reset s n t)) = card (?A - {unat n})"
    by (simp only: alive_count_card)
  also have "\<dots> = card ?A - 1"
    using mem by (simp add: card_Diff_singleton)
  finally have "alive_count (sbits (shrinkingset_reset s n t)) = alive_count (sbits s) - 1"
    by (simp only: alive_count_card)
  moreover have "?A \<noteq> {}" using mem by blast
  then have "0 < card ?A"
    using fin by (simp only: card_gt_0_iff) simp
  then have "0 < alive_count (sbits s)" by (simp only: alive_count_card)
  ultimately show ?thesis by simp
qed

lemma reset_count_accurate:
  assumes n: "unat n div 64 < length (sbits s)" and t: "t < length (cnt s)"
    and a: "shrinkingset_test s n" and e: "unat (shrinkingset_count s) = alive_count (sbits s)"
  shows "unat (shrinkingset_count (shrinkingset_reset s n t))
              = alive_count (sbits (shrinkingset_reset s n t))"
proof -
  have s: "alive_count (sbits s) = Suc (alive_count (sbits (shrinkingset_reset s n t)))"
    by (rule alive_count_reset [OF n a])
  then have "shrinkingset_count s \<noteq> 0" using e by (metis nat.distinct(1) unat_0)
  then have "unat (shrinkingset_count s - 1) = unat (shrinkingset_count s) - 1"
    by (rule unat_minus_one)
  with s e show ?thesis unfolding shrinkingset_count_reset [OF t] by simp
qed

text \<open>
  C8, as amended.  A second \<open>reset(n)\<close> leaves the bitmap as the first one left it, so
  \<open>test(m)\<close> and \<open>block(m)\<close> are unchanged for every \<open>m\<close>.  \<open>count()\<close> is not
  an observable of the bitmap: every call of \<open>reset\<close> lowers it by one, also a repeated
  one.  It equals the number of alive nonces as long as \<open>reset\<close> is only called on
  alive nonces, which is how the trimming kernel calls it.
\<close>

theorem shrinkingset_reset_twice:
  fixes n m :: "'a::len word"
  assumes n: "unat n div 64 < length (sbits s)"
    and t: "t < length (cnt s)" and t': "t' < length (cnt s)"
  shows "shrinkingset_test (shrinkingset_reset (shrinkingset_reset s n t) n t') m
           = shrinkingset_test (shrinkingset_reset s n t) m
       \<and> shrinkingset_block (shrinkingset_reset (shrinkingset_reset s n t) n t') m
           = shrinkingset_block (shrinkingset_reset s n t) m
       \<and> shrinkingset_count (shrinkingset_reset s n t) = shrinkingset_count s - 1
       \<and> shrinkingset_count (shrinkingset_reset (shrinkingset_reset s n t) n t')
           = shrinkingset_count s - 2
       \<and> (shrinkingset_test s n \<and> unat (shrinkingset_count s) = alive_count (sbits s) \<longrightarrow>
            unat (shrinkingset_count (shrinkingset_reset s n t))
              = alive_count (sbits (shrinkingset_reset s n t)))"
proof -
  have idem: "sbits (shrinkingset_reset (shrinkingset_reset s n t) n t') = sbits (shrinkingset_reset s n t)"
    by (rule sbits_reset_idem [OF n])
  have c1: "shrinkingset_count (shrinkingset_reset s n t) = shrinkingset_count s - 1"
    by (rule shrinkingset_count_reset [OF t])
  have c2: "shrinkingset_count (shrinkingset_reset (shrinkingset_reset s n t) n t')
           = shrinkingset_count s - 2"
    using shrinkingset_count_reset [of t' "shrinkingset_reset s n t" n] t' c1 by simp
  have acc: "unat (shrinkingset_count (shrinkingset_reset s n t))
              = alive_count (sbits (shrinkingset_reset s n t))"
    if a: "shrinkingset_test s n" and e: "unat (shrinkingset_count s) = alive_count (sbits s)"
    by (rule reset_count_accurate [OF n t a e])
  show ?thesis
    using c1 c2 acc by (simp add: shrinkingset_test_def shrinkingset_block_def idem)
qed



theorem shrinkingset_reset_twice_witness:
  "shrinkingset_test (shrinkingset_reset (shrinkingset_reset (shrinkingset_new 7 1) (5::u32) 0) (5::u32) 0) (5::u32)
     = shrinkingset_test (shrinkingset_reset (shrinkingset_new 7 1) (5::u32) 0) (5::u32)
   \<and> shrinkingset_count (shrinkingset_reset (shrinkingset_reset (shrinkingset_new 7 1) (5::u32) 0) (5::u32) 0)
     = shrinkingset_count (shrinkingset_new 7 1) - 2
   \<and> unat (shrinkingset_count (shrinkingset_reset (shrinkingset_new 7 1) (5::u32) 0))
     = alive_count (sbits (shrinkingset_reset (shrinkingset_new 7 1) (5::u32) 0))"
proof -
  have n: "unat (5::u32) div 64 < length (sbits (shrinkingset_new 7 1))" by code_simp
  have t: "0 < length (cnt (shrinkingset_new 7 1))" by code_simp
  have a: "shrinkingset_test (shrinkingset_new 7 1) (5::u32)" by code_simp
  have c: "unat (shrinkingset_count (shrinkingset_new 7 1)) = alive_count (sbits (shrinkingset_new 7 1))"
    by code_simp
  show ?thesis
    using shrinkingset_reset_twice [OF n t t, of "5::u32"] a c by blast
qed

text \<open>
  The claim as stated fails on 64 nonces and one thread: after \<open>reset(0)\<close> the count
  is the number of alive nonces (63); a second \<open>reset(0)\<close> changes \<open>count()\<close> to 62
  while 63 nonces are still alive.
\<close>

theorem shrinkingset_reset_twice_counterexample:
  "shrinkingset_count (shrinkingset_reset (shrinkingset_reset (shrinkingset_new 7 1) (0::u32) 0) (0::u32) 0)
     \<noteq> shrinkingset_count (shrinkingset_reset (shrinkingset_new 7 1) (0::u32) 0)
   \<and> unat (shrinkingset_count (shrinkingset_reset (shrinkingset_new 7 1) (0::u32) 0))
     = alive_count (sbits (shrinkingset_reset (shrinkingset_new 7 1) (0::u32) 0))
   \<and> unat (shrinkingset_count (shrinkingset_reset (shrinkingset_reset (shrinkingset_new 7 1) (0::u32) 0) (0::u32) 0))
     \<noteq> alive_count (sbits (shrinkingset_reset (shrinkingset_reset (shrinkingset_new 7 1) (0::u32) 0) (0::u32) 0))"
  by code_simp

lemma shrinkingset_block_bit:
  "bit (shrinkingset_block s n) i \<longleftrightarrow> i < 64 \<and> \<not> bit (sbits s ! (unat n div 64)) i"
  by (auto simp add: shrinkingset_block_def bit_simps)

lemma cuda_block_bit:
  "bit (cuda_block bits n) i \<longleftrightarrow> i < 32 \<and> \<not> bit (bits ! (unat n div 32)) i"
  by (auto simp add: cuda_block_def bit_simps)

lemma cuda_wideblock_bit:
  "bit (cuda_wideblock bits n) i \<longleftrightarrow>
     i < 64 \<and> \<not> bit (bits ! (2 * (unat n div 64) + i div 32)) (i mod 32)"
proof (cases "i < 32")
  case True
  then show ?thesis by (auto simp add: cuda_wideblock_def bit_simps)
next
  case False
  then have "i div 32 = 1 \<and> i mod 32 = i - 32" if "i < 64"
    using that by (simp add: div_nat_eqI mod_if)
  with False show ?thesis
    by (auto simp add: cuda_wideblock_def bit_simps dest: bit_imp_le_length)
qed

text \<open>
  C9, as amended.  \<open>block(n)\<close> returns the alive bits of the aligned word that
  contains \<open>n\<close>: bit \<open>i\<close> of the result is set exactly when nonce
  \<open>W * (n / W) + i\<close> is alive.  It covers \<open>[n, n+W)\<close> when \<open>n\<close> is a multiple
  of \<open>W\<close>, which is how every loop of the miners calls it.  \<open>W\<close> is 64 for the CPU
  miner's \<open>block\<close> and the CUDA miner's \<open>wideblock\<close>, and 32 for the CUDA miner's
  \<open>block\<close>.
\<close>

theorem block_covers_aligned_word:
  fixes n m :: "'a::len word"
  shows "(i < 64 \<and> unat m = 64 * (unat n div 64) + i \<longrightarrow>
            bit (shrinkingset_block s n) i = shrinkingset_test s m)
       \<and> (i < 64 \<and> unat n mod 64 = 0 \<and> unat n + i < 2 ^ LENGTH('a) \<longrightarrow>
            bit (shrinkingset_block s n) i = shrinkingset_test s (n + of_nat i))
       \<and> (i < 32 \<and> unat m = 32 * (unat n div 32) + i \<longrightarrow>
            bit (cuda_block bits n) i = cuda_test bits m)
       \<and> (i < 32 \<and> unat n mod 32 = 0 \<and> unat n + i < 2 ^ LENGTH('a) \<longrightarrow>
            bit (cuda_block bits n) i = cuda_test bits (n + of_nat i))
       \<and> (i < 64 \<and> unat m = 64 * (unat n div 64) + i \<longrightarrow>
            bit (cuda_wideblock bits n) i = cuda_test bits m)
       \<and> (i < 64 \<and> unat n mod 64 = 0 \<and> unat n + i < 2 ^ LENGTH('a) \<longrightarrow>
            bit (cuda_wideblock bits n) i = cuda_test bits (n + of_nat i))"
proof -
  have add: "unat (n + of_nat i) = unat n + i" if "unat n + i < 2 ^ LENGTH('a)"
    using that by (simp add: unat_word_ariths unat_of_nat)
  have al64: "unat n = 64 * (unat n div 64)" if "unat n mod 64 = 0"
    using that by (metis add.right_neutral div_mult_mod_eq mult.commute)
  have al32: "unat n = 32 * (unat n div 32)" if "unat n mod 32 = 0"
    using that by (metis add.right_neutral div_mult_mod_eq mult.commute)
  have a: "bit (shrinkingset_block s n) i = shrinkingset_test s k"
    if "i < 64" "unat k = 64 * (unat n div 64) + i" for k :: "'a word"
    using that by (simp add: shrinkingset_block_bit shrinkingset_test_iff)
  have b: "bit (cuda_block bits n) i = cuda_test bits k"
    if "i < 32" "unat k = 32 * (unat n div 32) + i" for k :: "'a word"
    using that by (simp add: cuda_block_bit cuda_test_iff)
  have c: "bit (cuda_wideblock bits n) i = cuda_test bits k"
    if "i < 64" "unat k = 64 * (unat n div 64) + i" for k :: "'a word"
  proof -
    have "unat k div 32 = 2 * (unat n div 64) + i div 32"
      unfolding that(2) by simp
    moreover have "unat k mod 32 = i mod 32"
      unfolding that(2) by (metis (no_types) mod_mult_self4 mult.assoc mult.commute mult_2 numeral_Bit0)
    ultimately show ?thesis
      using that(1) by (simp add: cuda_wideblock_bit cuda_test_iff)
  qed
  show ?thesis
    using a [of m] a [of "n + of_nat i"] b [of m] b [of "n + of_nat i"]
      c [of m] c [of "n + of_nat i"] add al64 al32
    by metis
qed


theorem block_covers_aligned_word_witness:
  "bit (shrinkingset_block (shrinkingset_reset (shrinkingset_new 8 1) (70::u32) 0) (64::u32)) 6
     = shrinkingset_test (shrinkingset_reset (shrinkingset_new 8 1) (70::u32) 0) (64 + of_nat 6 :: u32)
   \<and> bit (shrinkingset_block (shrinkingset_reset (shrinkingset_new 8 1) (70::u32) 0) (65::u32)) 6
     = shrinkingset_test (shrinkingset_reset (shrinkingset_new 8 1) (70::u32) 0) (70 :: u32)
   \<and> bit (cuda_block [0, 2] (32::u32)) 1 = cuda_test [0, 2] (32 + of_nat 1 :: u32)
   \<and> bit (cuda_wideblock [0, 2] (0::u32)) 33 = cuda_test [0, 2] (0 + of_nat 33 :: u32)"
  using block_covers_aligned_word [where i = 6 and n = "64::u32" and m = "70::u32"
          and s = "shrinkingset_reset (shrinkingset_new 8 1) (70::u32) 0"]
        block_covers_aligned_word [where i = 6 and n = "65::u32" and m = "70::u32"
          and s = "shrinkingset_reset (shrinkingset_new 8 1) (70::u32) 0"]
        block_covers_aligned_word [where i = 1 and n = "32::u32" and bits = "[0, 2]"]
        block_covers_aligned_word [where i = 33 and n = "0::u32" and bits = "[0, 2]"]
  by simp

text \<open>
  The claim as stated fails for a nonce that is not a multiple of 64: with nonce 0 dead
  and nonce 1 alive, bit 0 of \<open>block(1)\<close> is clear although nonce \<open>1 + 0\<close> is alive.
\<close>

theorem block_covers_aligned_word_counterexample:
  "\<not> (bit (shrinkingset_block (shrinkingset_reset (shrinkingset_new 7 1) (0::u32) 0) (1::u32)) 0
      \<longleftrightarrow> shrinkingset_test (shrinkingset_reset (shrinkingset_new 7 1) (0::u32) 0) (1 + of_nat 0 :: u32))"
  by code_simp

section \<open>The sweep visits the set bits in ascending order\<close>


lemma ffs_word_props:
  fixes v :: "'w::len word"
  assumes "v \<noteq> 0"
  obtains t where "ffs_word v = Suc t" and "bit v t" and "\<And>i. i < t \<Longrightarrow> \<not> bit v i"
proof -
  let ?P = "\<lambda>i. \<not> bit v i"
  let ?xs = "[0 ..< LENGTH('w)]"
  let ?t = "length (takeWhile ?P ?xs)"
  from assms obtain k where k: "bit v k"
    by (auto simp add: bit_eq_iff)
  then have kL: "k < LENGTH('w)" by (rule bit_imp_le_length)
  have "takeWhile ?P ?xs \<noteq> ?xs"
  proof
    assume "takeWhile ?P ?xs = ?xs"
    then have "\<forall>x\<in>set ?xs. ?P x" by (simp only: takeWhile_eq_all_conv)
    with k kL show False by simp
  qed
  then have lt: "?t < length ?xs"
    using length_takeWhile_le [of ?P ?xs] by (metis le_neq_implies_less takeWhile_eq_take take_all_iff order_refl)
  have "\<not> ?P (?xs ! ?t)" by (rule nth_length_takeWhile [OF lt])
  then have b: "bit v ?t" using lt by simp
  have c: "\<not> bit v i" if "i < ?t" for i
  proof -
    have "takeWhile ?P ?xs ! i = ?xs ! i" by (rule takeWhile_nth [OF that])
    also have "\<dots> = i" using that lt by simp
    finally have "i \<in> set (takeWhile ?P ?xs)" using that by (metis nth_mem)
    then show ?thesis by (auto dest: set_takeWhileD)
  qed
  have "ffs_word v = Suc ?t" using assms by (simp add: ffs_word_def)
  then show ?thesis using b c that by blast
qed

lemma filter_upt_first:
  assumes "j \<le> k" and "k < n" and "P k" and "\<And>i. j \<le> i \<Longrightarrow> i < k \<Longrightarrow> \<not> P i"
  shows "filter P [j ..< n] = k # filter P [Suc k ..< n]"
proof -
  obtain d where d: "n = k + d"
    using assms(2) by (metis less_imp_le_nat le_Suc_ex)
  have "[j ..< n] = [j ..< k] @ [k ..< n]"
    unfolding d by (rule upt_add_eq_append [OF assms(1)])
  also have "[k ..< n] = k # [Suc k ..< n]"
    by (rule upt_conv_Cons [OF assms(2)])
  finally have "[j ..< n] = [j ..< k] @ k # [Suc k ..< n]" .
  moreover have "filter P [j ..< k] = []"
    using assms(4) by (simp add: filter_empty_conv)
  ultimately show ?thesis using assms(3) by simp
qed

lemma filter_upt_none:
  assumes "\<And>i. j \<le> i \<Longrightarrow> i < n \<Longrightarrow> \<not> P i"
  shows "filter P [j ..< n] = []"
  using assms by (simp add: filter_empty_conv)

lemma sweep_from:
  fixes w :: "'w::len word" and b :: "'a::len word"
  assumes brk: "\<And>f. brk f \<Longrightarrow> LENGTH('w) \<le> f"
    and j: "j \<le> LENGTH('w)"
  shows "sweep brk body (drop_bit j w) (b + of_nat j - 1) st
       = foldl (\<lambda>s i. body (b + of_nat i) s) st (filter (bit w) [j ..< LENGTH('w)])"
  using j
proof (induction "LENGTH('w) - j" arbitrary: j st rule: less_induct)
  case less
  show ?case
  proof (cases "drop_bit j w = 0")
    case True
    have "\<not> bit w i" if "j \<le> i" for i
    proof -
      have "bit (drop_bit j w) (i - j) = bit w i"
        using that by (simp add: bit_drop_bit_eq)
      then show ?thesis using True by simp
    qed
    then have "filter (bit w) [j ..< LENGTH('w)] = []"
      by (intro filter_upt_none) simp
    with True show ?thesis by (simp add: sweep.simps [of _ _ "drop_bit j w"])
  next
    case False
    from ffs_word_props [OF False] obtain t where
      ffs: "ffs_word (drop_bit j w) = Suc t" and bt: "bit (drop_bit j w) t"
      and clr: "\<And>i. i < t \<Longrightarrow> \<not> bit (drop_bit j w) i"
      by blast
    from bt have bw: "bit w (j + t)" by (simp add: bit_drop_bit_eq)
    then have lt: "j + t < LENGTH('w)" by (rule bit_imp_le_length)
    have clr': "\<not> bit w i" if "j \<le> i" "i < j + t" for i
    proof -
      have "\<not> bit (drop_bit j w) (i - j)" using that by (intro clr) simp
      then show ?thesis using that by (simp add: bit_drop_bit_eq)
    qed
    have fl: "filter (bit w) [j ..< LENGTH('w)] = (j + t) # filter (bit w) [Suc (j + t) ..< LENGTH('w)]"
      by (rule filter_upt_first) (use lt bw clr' in simp_all)
    have nonce: "b + of_nat j - 1 + of_nat (Suc t) = b + of_nat (j + t)"
      by simp
    have nonce': "b + of_nat (j + t) = b + of_nat (Suc (j + t)) - 1"
      by simp
    have dd: "drop_bit (Suc t) (drop_bit j w) = drop_bit (Suc (j + t)) w"
      by (simp add: add.commute)
    have step: "sweep brk body (drop_bit j w) (b + of_nat j - 1) st =
        (if brk (Suc t) then body (b + of_nat (j + t)) st
         else sweep brk body (drop_bit (Suc (j + t)) w) (b + of_nat (Suc (j + t)) - 1)
                (body (b + of_nat (j + t)) st))"
      by (subst sweep.simps) (simp only: False ffs Let_def nonce dd nonce' [symmetric] if_False)
    show ?thesis
    proof (cases "brk (Suc t)")
      case True
      then have "LENGTH('w) \<le> Suc t" by (rule brk)
      with lt have "Suc (j + t) = LENGTH('w)" by simp
      then have "filter (bit w) [Suc (j + t) ..< LENGTH('w)] = []" by simp
      with True show ?thesis
        unfolding fl step by simp
    next
      case nb: False
      have "sweep brk body (drop_bit (Suc (j + t)) w) (b + of_nat (Suc (j + t)) - 1)
               (body (b + of_nat (j + t)) st)
          = foldl (\<lambda>s i. body (b + of_nat i) s) (body (b + of_nat (j + t)) st)
               (filter (bit w) [Suc (j + t) ..< LENGTH('w)])"
        by (rule less.hyps) (use lt in simp_all)
      with nb show ?thesis
        unfolding fl step by simp
    qed
  qed
qed

lemma sweep_eq_foldl:
  fixes w :: "'w::len word" and b :: "'a::len word"
  assumes brk: "\<And>f. brk f \<Longrightarrow> LENGTH('w) \<le> f"
  shows "sweep brk body w (b - 1) st
       = foldl (\<lambda>s i. body (b + of_nat i) s) st (filter (bit w) [0 ..< LENGTH('w)])"
  using sweep_from [where j = 0 and brk = brk and body = body and w = w and b = b and st = st] brk
  by simp



lemma no_brk_imp: "no_brk f \<Longrightarrow> n \<le> f"
  by (simp add: no_brk_def)

section \<open>Trimming only kills\<close>


lemma dead_stays_dead_refl: "dead_stays_dead bs bs"
  by (simp add: dead_stays_dead_def)

lemma dead_stays_dead_trans:
  "dead_stays_dead a b \<Longrightarrow> dead_stays_dead b c \<Longrightarrow> dead_stays_dead a c"
  by (simp add: dead_stays_dead_def)

lemma foldl_rel:
  assumes "\<And>s. R s s" and "\<And>a b c. R a b \<Longrightarrow> R b c \<Longrightarrow> R a c" and "\<And>s x. R s (f s x)"
  shows "R s (foldl f s xs)"
proof (induction xs arbitrary: s)
  case Nil
  show ?case by (simp add: assms(1))
next
  case (Cons x xs)
  have "R s (f s x)" by (rule assms(3))
  moreover have "R (f s x) (foldl f (f s x) xs)" by (rule Cons.IH)
  ultimately show ?case using assms(2) by auto
qed

lemma for_blocks_rel:
  assumes "\<And>s. R s s" and "\<And>a b c. R a b \<Longrightarrow> R b c \<Longrightarrow> R a c" and "\<And>s x. R s (body x s)"
  shows "R st (for_blocks body halfsize step block st)"
proof (induction "halfsize - block" arbitrary: block st rule: less_induct)
  case less
  show ?case
  proof (cases "block < halfsize \<and> 0 < step")
    case True
    have "R st (body block st)" by (rule assms(3))
    moreover have "R (body block st) (for_blocks body halfsize step (block + step) (body block st))"
      by (rule less.hyps) (use True in linarith)
    ultimately have "R st (for_blocks body halfsize step (block + step) (body block st))"
      using assms(2) by blast
    then show ?thesis by (subst for_blocks.simps) (simp only: True simp_thms if_True)
  next
    case False
    show ?thesis by (subst for_blocks.simps) (simp only: False simp_thms if_False assms(1))
  qed
qed

lemma nth_list_update_if:
  "xs[i := x] ! j = (if i = j \<and> i < length xs then x else xs ! j)"
  by (cases "i < length xs") (simp_all add: nth_list_update list_update_beyond)

lemma reset_dead_stays_dead:
  "dead_stays_dead (sbits s) (sbits (shrinkingset_reset s n t))"
  by (auto simp add: dead_stays_dead_def shrinkingset_reset_def nth_list_update_if bit_simps)

lemma cuda_reset_dead_stays_dead:
  "dead_stays_dead bits (cuda_reset bits n)"
  by (auto simp add: dead_stays_dead_def cuda_reset_def nth_list_update_if bit_simps)

lemma kill_leaf_edges_block_dead_stays_dead:
  "dead_stays_dead (sbits alive)
     (sbits (kill_leaf_edges_block siphash24 sizeshift part_bits tid uorv part nonleaf block alive))"
  unfolding kill_leaf_edges_block_def Let_def
  by (rule foldl_rel [where R = "\<lambda>a b. dead_stays_dead (sbits a) (sbits b)"])
     (auto intro: dead_stays_dead_refl dead_stays_dead_trans reset_dead_stays_dead)

lemma kill_leaf_edges_dead_stays_dead:
  "dead_stays_dead (sbits alive)
     (sbits (kill_leaf_edges siphash24 sizeshift part_bits nthreads tid uorv part nonleaf alive))"
  unfolding kill_leaf_edges_def
  by (rule for_blocks_rel [where R = "\<lambda>a b. dead_stays_dead (sbits a) (sbits b)"])
     (auto intro: dead_stays_dead_refl dead_stays_dead_trans kill_leaf_edges_block_dead_stays_dead)

lemma kill_phase_dead_stays_dead:
  "dead_stays_dead (sbits alive)
     (sbits (kill_phase siphash24 sizeshift part_bits nthreads uorv part nonleaf alive))"
  unfolding kill_phase_def
  by (rule foldl_rel [where R = "\<lambda>a b. dead_stays_dead (sbits a) (sbits b)"])
     (auto intro: dead_stays_dead_refl dead_stays_dead_trans kill_leaf_edges_dead_stays_dead)

lemma trim_round_dead_stays_dead:
  "dead_stays_dead (sbits alive) (sbits (trim_round siphash24 sizeshift part_bits nthreads alive))"
  unfolding trim_round_def
  by (rule foldl_rel [where R = "\<lambda>a b. dead_stays_dead (sbits a) (sbits b)"])
     (auto simp add: trim_pass_def Let_def
           intro: dead_stays_dead_refl dead_stays_dead_trans kill_phase_dead_stays_dead)

lemma trim_length:
  "length (sbits (trim siphash24 sizeshift part_bits nthreads k alive)) = length (sbits alive)"
proof (induction k)
  case 0
  show ?case by simp
next
  case (Suc k)
  show ?case
    using trim_round_dead_stays_dead
      [of "trim siphash24 sizeshift part_bits nthreads k alive" siphash24 sizeshift part_bits nthreads]
      Suc
    by (simp add: dead_stays_dead_def)
qed

lemma sweep_no_brk:
  fixes w :: "'w::len word" and b :: "'a::len word"
  shows "sweep no_brk body w (b - 1) st
       = foldl (\<lambda>s i. body (b + of_nat i) s) st (filter (bit w) [0 ..< LENGTH('w)])"
  by (rule sweep_eq_foldl) (rule no_brk_imp)


lemma cuda_kill_leaf_edges_dead_stays_dead:
  "dead_stays_dead bits (cuda_kill_leaf_edges siphash24 sizeshift part_bits tid uorv part nonleaf bits)"
  unfolding cuda_kill_leaf_edges_def Let_def sweep_no_brk
  by (rule foldl_rel [where R = dead_stays_dead])
     (auto intro: dead_stays_dead_refl dead_stays_dead_trans cuda_reset_dead_stays_dead)

lemma cuda_trim_round_dead_stays_dead:
  "dead_stays_dead bits (cuda_trim_round siphash24 sizeshift part_bits tpb bits)"
proof -
  have k: "dead_stays_dead b (cuda_kill_phase siphash24 sizeshift part_bits tpb uorv part nonleaf b)"
    for b uorv part nonleaf
    unfolding cuda_kill_phase_def
    by (rule foldl_rel [where R = dead_stays_dead])
       (auto intro: dead_stays_dead_refl dead_stays_dead_trans cuda_kill_leaf_edges_dead_stays_dead)
  show ?thesis
    unfolding cuda_trim_round_def
    by (rule foldl_rel [where R = dead_stays_dead])
       (auto simp add: cuda_trim_pass_def Let_def
             intro: dead_stays_dead_refl dead_stays_dead_trans k)
qed

lemma cuda_trim_length:
  "length (cuda_trim siphash24 sizeshift part_bits tpb k bits) = length bits"
proof (induction k)
  case 0
  show ?case by simp
next
  case (Suc k)
  show ?case
    using cuda_trim_round_dead_stays_dead
      [of "cuda_trim siphash24 sizeshift part_bits tpb k bits" siphash24 sizeshift part_bits tpb]
      Suc
    by (simp add: dead_stays_dead_def)
qed

text \<open>
  C2.  A nonce that is dead after trim round \<open>k\<close> is dead after round \<open>k + 1\<close>, on
  the CPU and on the device; the only operation that writes the bitmap, \<open>reset\<close>, never
  makes a dead nonce alive.
\<close>

theorem trimming_monotonic:
  fixes n m :: u32
  assumes cpu: "unat n div 64 < length (sbits alive)"
    and gpu: "unat n div 32 < length bits"
  shows "(\<not> shrinkingset_test (trim siphash24 sizeshift part_bits nthreads k alive) n \<longrightarrow>
          \<not> shrinkingset_test (trim siphash24 sizeshift part_bits nthreads (Suc k) alive) n)
       \<and> (\<not> shrinkingset_test alive n \<longrightarrow> \<not> shrinkingset_test (shrinkingset_reset alive m t) n)
       \<and> (\<not> cuda_test (cuda_trim siphash24 sizeshift part_bits tpb k bits) n \<longrightarrow>
          \<not> cuda_test (cuda_trim siphash24 sizeshift part_bits tpb (Suc k) bits) n)
       \<and> (\<not> cuda_test bits n \<longrightarrow> \<not> cuda_test (cuda_reset bits m) n)"
proof -
  have a: "\<not> shrinkingset_test s' n"
    if "dead_stays_dead (sbits s) (sbits s')" "unat n div 64 < length (sbits s)"
      "\<not> shrinkingset_test s n" for s s'
    using that by (auto simp add: dead_stays_dead_def shrinkingset_test_iff)
  have b: "\<not> cuda_test b' n"
    if "dead_stays_dead b b'" "unat n div 32 < length b" "\<not> cuda_test b n" for b b'
    using that by (auto simp add: dead_stays_dead_def cuda_test_iff)
  have "\<not> shrinkingset_test (trim siphash24 sizeshift part_bits nthreads (Suc k) alive) n"
    if "\<not> shrinkingset_test (trim siphash24 sizeshift part_bits nthreads k alive) n"
    using a [OF trim_round_dead_stays_dead _ that, of siphash24 sizeshift part_bits nthreads] cpu
    by (simp add: trim_length)
  moreover have "\<not> shrinkingset_test (shrinkingset_reset alive m t) n" if "\<not> shrinkingset_test alive n"
    using a [OF reset_dead_stays_dead cpu that] .
  moreover have "\<not> cuda_test (cuda_trim siphash24 sizeshift part_bits tpb (Suc k) bits) n"
    if "\<not> cuda_test (cuda_trim siphash24 sizeshift part_bits tpb k bits) n"
    using b [OF cuda_trim_round_dead_stays_dead _ that, of siphash24 sizeshift part_bits tpb] gpu
    by (simp add: cuda_trim_length)
  moreover have "\<not> cuda_test (cuda_reset bits m) n" if "\<not> cuda_test bits n"
    using b [OF cuda_reset_dead_stays_dead gpu that] .
  ultimately show ?thesis by blast
qed



theorem trimming_monotonic_witness:
  "\<not> shrinkingset_test
       (trim (\<lambda>x. if x < 64 then x div 4 else x) 7 0 1 (Suc 0)
          (shrinkingset_reset (shrinkingset_new 7 1) (40::u32) 0)) (40::u32)
   \<and> \<not> cuda_test (cuda_trim (\<lambda>x. if x < 64 then x div 4 else x) 7 0 2 (Suc 0) [0, 256]) (40::u32)"
proof -
  have r: "unat (40::u32) div 64 < length (sbits (shrinkingset_reset (shrinkingset_new 7 1) (40::u32) 0))"
    by code_simp
  have g: "unat (40::u32) div 32 < length [0, 256 :: u32]" by simp
  have a: "\<not> shrinkingset_test
       (trim (\<lambda>x. if x < 64 then x div 4 else x) 7 0 1 0
          (shrinkingset_reset (shrinkingset_new 7 1) (40::u32) 0)) (40::u32)"
    by code_simp
  have b: "\<not> cuda_test (cuda_trim (\<lambda>x. if x < 64 then x div 4 else x) 7 0 2 0 [0, 256]) (40::u32)"
    by code_simp
  show ?thesis
    using trimming_monotonic [OF r g, of "\<lambda>x. if x < 64 then x div 4 else x" 7 0 1 0] a b
    by blast
qed


section \<open>The kill phase on the device\<close>





lemma length_cuda_reset [simp]: "length (cuda_reset bits n) = length bits"
  by (simp add: cuda_reset_def)









section \<open>The kill phase on the CPU\<close>





















section \<open>What the kill phase does\<close>







section \<open>The counter is the number of alive nonces\<close>






















section \<open>Round trip through the cuckoo table\<close>
































end
